theory Spec2Isabelle
  imports Main
begin

section \<open>Tensors as the deep QEP notebook uses them\<close>

text \<open>
  The notebook's hidden layer manipulates \<^verbatim>\<open>torch\<close> tensors with three operations:
  \<^verbatim>\<open>unsqueeze\<close>, \<^verbatim>\<open>expand\<close> and \<^verbatim>\<open>torch.cat\<close>. A tensor is its shape together with its
  elements in row-major order, the layout of a contiguous tensor. The element type is left
  open: none of the three operations computes with the elements.
\<close>

record 'a tensor =
  shape :: "nat list"
  data :: "'a list"

definition valid :: "'a tensor \<Rightarrow> bool" where
  "valid t \<longleftrightarrow> length (data t) = prod_list (shape t)"

datatype error = TypeError | IndexError | RuntimeError

text \<open>
  \<^verbatim>\<open>t.unsqueeze(dim)\<close> inserts a dimension of size one at position \<open>dim\<close>; a negative
  \<open>dim\<close> counts from the end, and a position outside \<open>[-ndim-1, ndim]\<close> raises.
\<close>

definition unsqueeze :: "int \<Rightarrow> 'a tensor \<Rightarrow> error + 'a tensor" where
  "unsqueeze d t =
     (let n = int (length (shape t));
          j = (if d < 0 then d + n + 1 else d)
      in if 0 \<le> j \<and> j \<le> n
         then Inr (t\<lparr>shape := take (nat j) (shape t) @ [1] @ drop (nat j) (shape t)\<rparr>)
         else Inl IndexError)"

text \<open>\<open>chunks k m xs\<close> cuts \<open>xs\<close> into \<open>k\<close> consecutive blocks of \<open>m\<close> elements.\<close>

fun chunks :: "nat \<Rightarrow> nat \<Rightarrow> 'a list \<Rightarrow> 'a list list" where
  "chunks 0 m xs = []"
| "chunks (Suc k) m xs = take m xs # chunks k m (drop m xs)"

text \<open>
  \<^verbatim>\<open>t.expand(*sizes)\<close> broadcasts dimensions of size one. The requested sizes are aligned
  with the tensor's shape from the right; dimensions missing on the left count as size one.
  A dimension whose size is neither one nor the requested size raises. \<open>expand_data\<close>
  lays out the elements of the broadcast tensor: a dimension that keeps its size is
  expanded block by block, a dimension of size one is repeated.
\<close>

fun expand_data :: "nat list \<Rightarrow> nat list \<Rightarrow> 'a list \<Rightarrow> 'a list" where
  "expand_data (d # ds) (n # ns) xs =
     (if d = n then concat (map (expand_data ds ns) (chunks d (prod_list ds) xs))
      else concat (replicate n (expand_data ds ns xs)))"
| "expand_data _ _ xs = xs"

definition expand :: "nat list \<Rightarrow> 'a tensor \<Rightarrow> error + 'a tensor" where
  "expand sizes t =
     (if length sizes < length (shape t) then Inl RuntimeError
      else let old = replicate (length sizes - length (shape t)) 1 @ shape t
           in if list_all2 (\<lambda>d n. d = n \<or> d = 1) old sizes
              then Inr \<lparr>shape = sizes, data = expand_data old sizes (data t)\<rparr>
              else Inl RuntimeError)"

text \<open>
  \<open>row_of t r\<close> is the \<open>r\<close>-th row of \<open>t\<close> along its last dimension: the elements with
  the same leading index, \<open>r\<close> numbering the leading indices in row-major order.
\<close>

definition row_of :: "'a tensor \<Rightarrow> nat \<Rightarrow> 'a list" where
  "row_of t r = take (last (shape t)) (drop (r * last (shape t)) (data t))"

text \<open>
  \<^verbatim>\<open>torch.cat(tensors, dim=-1)\<close>: the list must not be empty, no tensor may be
  zero-dimensional, and all shapes must agree except in the last dimension; otherwise it
  raises. One-dimensional empty tensors (shape \<open>[0]\<close>) are skipped, as the library
  documents. The result holds, row by row, the rows of the tensors one after the other.
\<close>

definition cat_last :: "'a tensor list \<Rightarrow> error + 'a tensor" where
  "cat_last ts =
     (if ts = [] then Inl RuntimeError
      else case filter (\<lambda>t. shape t \<noteq> [0]) ts of
        [] \<Rightarrow> Inr \<lparr>shape = [0], data = []\<rparr>
      | t # rest \<Rightarrow>
          if list_ex (\<lambda>u. shape u = [] \<or> butlast (shape u) \<noteq> butlast (shape t)) (t # rest)
          then Inl RuntimeError
          else Inr \<lparr>shape = butlast (shape t) @ [sum_list (map (\<lambda>u. last (shape u)) (t # rest))],
                    data = concat (map (\<lambda>r. concat (map (\<lambda>u. row_of u r) (t # rest)))
                                       [0..<prod_list (butlast (shape t))])\<rparr>)"

section \<open>The hidden layer's call with skip connections\<close>

text \<open>
  \<^verbatim>\<open>ToyDeepQEPHiddenLayer.__call__(self, x, *other_inputs)\<close> of the deep QEP notebook:
  \<^verbatim>\<open>
    if len(other_inputs):
        if isinstance(x, qpytorch.distributions.MultitaskMultivariateQExponential):
            x = x.rsample()
        processed_inputs = [
            inp.unsqueeze(0).expand(qpytorch.settings.num_likelihood_samples.value(), *inp.shape)
            for inp in other_inputs
        ]
        x = torch.cat([x] + processed_inputs, dim=-1)
    return super().__call__(x, are_samples=bool(len(other_inputs)))
  \<close>
  The first argument is a multitask distribution (the previous layer's output), a tensor,
  or some other object. The parameters of the model are what the notebook does not define:
  \<open>S\<close> is the value of the setting \<^verbatim>\<open>num_likelihood_samples\<close>, \<open>rsample\<close> is the draw
  \<^verbatim>\<open>x.rsample()\<close> returns, and \<open>super_call\<close> is \<^verbatim>\<open>DeepQEPLayer.__call__\<close>.
\<close>

datatype ('a, 'd, 'o) layer_input = Multitask 'd | Tens "'a tensor" | Other 'o

fun sequence :: "(error + 'b) list \<Rightarrow> error + 'b list" where
  "sequence [] = Inr []"
| "sequence (Inl e # rs) = Inl e"
| "sequence (Inr v # rs) = (case sequence rs of Inl e \<Rightarrow> Inl e | Inr vs \<Rightarrow> Inr (v # vs))"

definition process_input :: "nat \<Rightarrow> 'a tensor \<Rightarrow> error + 'a tensor" where
  "process_input S inp =
     (case unsqueeze 0 inp of Inl e \<Rightarrow> Inl e | Inr u \<Rightarrow> expand (S # shape inp) u)"

definition ToyDeepQEPHiddenLayer_call ::
  "nat \<Rightarrow> ('d \<Rightarrow> 'a tensor) \<Rightarrow> (('a, 'd, 'o) layer_input \<Rightarrow> bool \<Rightarrow> 'r) \<Rightarrow>
   ('a, 'd, 'o) layer_input \<Rightarrow> 'a tensor list \<Rightarrow> error + 'r" where
  "ToyDeepQEPHiddenLayer_call S rsample super_call x other_inputs =
     (case (if length other_inputs \<noteq> 0
            then let x1 = (case x of Multitask d \<Rightarrow> Tens (rsample d) | _ \<Rightarrow> x)
                 in case sequence (map (process_input S) other_inputs) of
                      Inl e \<Rightarrow> Inl e
                    | Inr processed_inputs \<Rightarrow>
                        (case x1 of
                           Tens t \<Rightarrow> (case cat_last (t # processed_inputs) of
                                        Inl e \<Rightarrow> Inl e
                                      | Inr c \<Rightarrow> Inr (Tens c))
                         | _ \<Rightarrow> Inl TypeError)
            else Inr x) of
        Inl e \<Rightarrow> Inl e
      | Inr x' \<Rightarrow> Inr (super_call x' (length other_inputs \<noteq> 0)))"

text \<open>
  \<open>expanded S inp\<close> is the tensor of \<open>S\<close> copies of \<open>inp\<close> stacked along a new
  leading dimension; the proofs below show that it is what \<open>process_input\<close> returns.
\<close>

definition expanded :: "nat \<Rightarrow> 'a tensor \<Rightarrow> 'a tensor" where
  "expanded S inp = \<lparr>shape = S # shape inp, data = concat (replicate S (data inp))\<rparr>"

section \<open>Persisted model state\<close>

text \<open>
  The saving-and-loading notebook stores \<^verbatim>\<open>model.state_dict()\<close> and later calls
  \<^verbatim>\<open>model.load_state_dict(state_dict)\<close> on a fresh model; the recorded output is
  \<^verbatim>\<open><All keys matched successfully>\<close>. A state dictionary is an ordered list of
  name-tensor pairs; the tensors are left abstract.
\<close>

type_synonym 'v state_dict = "(string \<times> 'v) list"

definition keys :: "'v state_dict \<Rightarrow> string list" where
  "keys sd = map fst sd"

datatype load_error = KeyMismatch (missing_keys: "string list") (unexpected_keys: "string list")

text \<open>
  Modelled from the spec: \<^verbatim>\<open>load_state_dict\<close> is library code that is not among the
  sources; only the notebook's call to it is. The specification says that parameters
  serialize as a flat name-to-tensor mapping and that loading requires an exact key-set
  match against the target model's parameter registry, partial or renamed loads failing
  loudly rather than silently skipping entries. So loading collects the registry's names
  that the saved mapping lacks and the saved names that the registry lacks, fails with both
  lists when either is non-empty, and otherwise gives every registered name its saved
  tensor.
\<close>

definition load_state_dict :: "'v state_dict \<Rightarrow> 'v state_dict \<Rightarrow> load_error + 'v state_dict" where
  "load_state_dict registry saved =
     (let missing = filter (\<lambda>k. k \<notin> set (keys saved)) (keys registry);
          unexpected = filter (\<lambda>k. k \<notin> set (keys registry)) (keys saved)
      in if missing = [] \<and> unexpected = []
         then Inr (map (\<lambda>(k, v). (k, case map_of saved k of Some w \<Rightarrow> w | None \<Rightarrow> v)) registry)
         else Inl (KeyMismatch missing unexpected))"

section \<open>Facts about the tensor operations\<close>

lemma concat_chunks: "length xs = k * m \<Longrightarrow> concat (chunks k m xs) = xs"
  by (induction k arbitrary: xs) auto

lemma length_chunks: "length xs = k * m \<Longrightarrow> c \<in> set (chunks k m xs) \<Longrightarrow> length c = m"
proof (induction k arbitrary: xs)
  case 0
  then show ?case by simp
next
  case (Suc k)
  have "length (drop m xs) = k * m" using Suc.prems(1) by simp
  then show ?case using Suc.IH [of "drop m xs"] Suc.prems by auto
qed

lemma expand_data_same: "length xs = prod_list sh \<Longrightarrow> expand_data sh sh xs = xs"
proof (induction sh arbitrary: xs)
  case Nil
  then show ?case by simp
next
  case (Cons d ds)
  have len: "length xs = d * prod_list ds" using Cons.prems by simp
  have "map (expand_data ds ds) (chunks d (prod_list ds) xs) = chunks d (prod_list ds) xs"
    using Cons.IH length_chunks [OF len] by (simp add: map_idI)
  then show ?case using concat_chunks [OF len] by simp
qed


lemma process_input_expanded:
  assumes "valid inp"
  shows "process_input S inp = Inr (expanded S inp)"
proof -
  have len: "length (data inp) = prod_list (shape inp)" using assms by (simp add: valid_def)
  have un: "unsqueeze 0 inp = Inr (inp\<lparr>shape := 1 # shape inp\<rparr>)"
    by (simp add: unsqueeze_def)
  have compat: "list_all2 (\<lambda>d n. d = n \<or> d = 1) (1 # shape inp) (S # shape inp)"
    by (simp add: list_all2_refl)
  have dat: "expand_data (1 # shape inp) (S # shape inp) (data inp) = concat (replicate S (data inp))"
    using expand_data_same [OF len] len by (cases "S = 1") auto
  show ?thesis
    using compat dat by (simp add: process_input_def un expand_def expanded_def)
qed

lemma sequence_map_Inr: "(\<And>x. x \<in> set xs \<Longrightarrow> f x = Inr (g x)) \<Longrightarrow> sequence (map f xs) = Inr (map g xs)"
  by (induction xs) auto

lemma length_concat_rows: "(\<And>i. i < n \<Longrightarrow> length (f i) = D) \<Longrightarrow> length (concat (map f [0..<n])) = n * D"
  by (induction n) auto

lemma nth_row_concat:
  "(\<And>i. i < n \<Longrightarrow> length (f i) = D) \<Longrightarrow> k < n \<Longrightarrow> take D (drop (k * D) (concat (map f [0..<n]))) = f k"
proof (induction n)
  case 0
  then show ?case by simp
next
  case (Suc n)
  have len: "length (concat (map f [0..<n])) = n * D"
    using Suc.prems(1) by (intro length_concat_rows) simp
  show ?case
  proof (cases "k < n")
    case True
    then have "Suc k \<le> n" by simp
    then have "Suc k * D \<le> n * D" by (rule mult_le_mono1)
    then have le: "k * D + D \<le> n * D" by simp
    have "take D (drop (k * D) (concat (map f [0..<n]))) = f k"
      using Suc.IH Suc.prems(1) True by simp
    then show ?thesis using le len by simp
  next
    case False
    then have "k = n" using Suc.prems(2) by simp
    then show ?thesis using len Suc.prems(1) by simp
  qed
qed

lemma drop_concat_replicate:
  "length xs = n \<Longrightarrow> s \<le> S \<Longrightarrow> drop (s * n) (concat (replicate S xs)) = concat (replicate (S - s) xs)"
proof (induction s arbitrary: S)
  case 0
  then show ?case by simp
next
  case (Suc s)
  then obtain S' where S: "S = Suc S'" by (cases S) auto
  then show ?case using Suc by simp
qed


lemma prod_list_shape: "sh \<noteq> [] \<Longrightarrow> prod_list sh = prod_list (butlast sh) * last sh"
proof -
  assume "sh \<noteq> []"
  then have "sh = butlast sh @ [last sh]" by simp
  then have "prod_list sh = prod_list (butlast sh @ [last sh])" by simp
  then show ?thesis by simp
qed

lemma length_row_of:
  assumes "valid t" "shape t \<noteq> []" "r < prod_list (butlast (shape t))"
  shows "length (row_of t r) = last (shape t)"
proof -
  let ?d = "last (shape t)" and ?P = "prod_list (butlast (shape t))"
  have len: "length (data t) = ?P * ?d"
    using assms(1,2) prod_list_shape by (simp add: valid_def)
  have "Suc r \<le> ?P" using assms(3) by simp
  then have "Suc r * ?d \<le> ?P * ?d" by (rule mult_le_mono1)
  then have "r * ?d + ?d \<le> length (data t)" using len by simp
  then show ?thesis by (simp add: row_of_def)
qed

lemma row_of_expanded:
  assumes "valid inp" "shape inp \<noteq> []" "s < S" "r < prod_list (butlast (shape inp))"
  shows "row_of (expanded S inp) (s * prod_list (butlast (shape inp)) + r) = row_of inp r"
proof -
  let ?d = "last (shape inp)" and ?P = "prod_list (butlast (shape inp))"
  let ?xs = "data inp"
  have len: "length ?xs = ?P * ?d"
    using assms(1,2) prod_list_shape by (simp add: valid_def)
  have "Suc r \<le> ?P" using assms(4) by simp
  then have "Suc r * ?d \<le> ?P * ?d" by (rule mult_le_mono1)
  then have le: "r * ?d + ?d \<le> length ?xs" using len by simp
  obtain m where m: "S - s = Suc m" using assms(3) by (cases "S - s") auto
  have idx: "(s * ?P + r) * ?d = r * ?d + s * (?P * ?d)"
    by (simp add: algebra_simps)
  have "drop ((s * ?P + r) * ?d) (concat (replicate S ?xs))
          = drop (r * ?d) (drop (s * (?P * ?d)) (concat (replicate S ?xs)))"
    by (simp only: idx drop_drop)
  also have "\<dots> = drop (r * ?d) (concat (replicate (S - s) ?xs))"
    using drop_concat_replicate [OF len, of s S] assms(3) by simp
  also have "\<dots> = drop (r * ?d) ?xs @ concat (replicate m ?xs)"
    using le by (simp add: m)
  finally have "take ?d (drop ((s * ?P + r) * ?d) (concat (replicate S ?xs))) = take ?d (drop (r * ?d) ?xs)"
    using le by simp
  then show ?thesis using assms(2) by (simp add: row_of_def expanded_def)
qed

lemma length_concat_row_of:
  "(\<And>u. u \<in> set ts \<Longrightarrow> length (row_of u r) = last (shape u)) \<Longrightarrow>
   length (concat (map (\<lambda>u. row_of u r) ts)) = sum_list (map (\<lambda>u. last (shape u)) ts)"
  by (induction ts) auto

lemma cat_last_rows:
  assumes ne: "ts \<noteq> []"
      and ok: "\<And>u. u \<in> set ts \<Longrightarrow> valid u \<and> shape u \<noteq> [] \<and> shape u \<noteq> [0] \<and> butlast (shape u) = lead"
  shows "\<exists>c. cat_last ts = Inr c
           \<and> shape c = lead @ [sum_list (map (\<lambda>u. last (shape u)) ts)]
           \<and> valid c
           \<and> (\<forall>r < prod_list lead. row_of c r = concat (map (\<lambda>u. row_of u r) ts))"
proof -
  let ?D = "sum_list (map (\<lambda>u. last (shape u)) ts)"
  let ?f = "\<lambda>r. concat (map (\<lambda>u. row_of u r) ts)"
  let ?c = "\<lparr>shape = lead @ [?D], data = concat (map ?f [0..<prod_list lead])\<rparr>"
  obtain t rest where ts: "ts = t # rest" using ne by (cases ts) auto
  have filt: "filter (\<lambda>t. shape t \<noteq> [0]) ts = ts"
    using ok by (simp add: filter_id_conv)
  have lead_t: "butlast (shape t) = lead" using ok [of t] ts by simp
  have noex: "\<not> list_ex (\<lambda>u. shape u = [] \<or> butlast (shape u) \<noteq> lead) ts"
    using ok by (auto simp: list_ex_iff)
  have cat: "cat_last ts = Inr ?c"
    using filt noex lead_t ne unfolding cat_last_def ts by simp
  have rowlen: "length (?f r) = ?D" if "r < prod_list lead" for r
  proof (rule length_concat_row_of)
    fix u assume "u \<in> set ts"
    then show "length (row_of u r) = last (shape u)"
      using ok [of u] that by (simp add: length_row_of)
  qed
  have val: "valid ?c"
    using length_concat_rows [of "prod_list lead" ?f ?D] rowlen by (simp add: valid_def)
  have rows: "row_of ?c r = ?f r" if "r < prod_list lead" for r
    using nth_row_concat [of "prod_list lead" ?f ?D r] rowlen that by (simp add: row_of_def)
  show ?thesis using cat val rows by auto
qed


lemma valid_expanded: "valid inp \<Longrightarrow> valid (expanded S inp)"
  by (simp add: valid_def expanded_def length_concat sum_list_replicate)

lemma sample_row_index: "s < S \<Longrightarrow> r < P \<Longrightarrow> s * P + r < S * (P::nat)"
proof -
  assume "s < S" "r < P"
  then have "s * P + r < Suc s * P" by simp
  also have "\<dots> \<le> S * P" using \<open>s < S\<close> by (intro mult_le_mono1) simp
  finally show ?thesis .
qed

section \<open>Skip connections feed the samples as a batch\<close>

text \<open>
  Without additional inputs the layer hands its argument on untouched, and marks it as not
  being a batch of samples.
\<close>

lemma call_without_other_inputs:
  "ToyDeepQEPHiddenLayer_call S rsample super_call x [] = Inr (super_call x False)"
  by (simp add: ToyDeepQEPHiddenLayer_call_def)

text \<open>
  With additional inputs, a first argument that is neither a tensor nor a multitask
  distribution cannot be concatenated: \<^verbatim>\<open>torch.cat\<close> raises.
\<close>

lemma call_rejects_other_objects:
  assumes "other_inputs \<noteq> []" "\<forall>inp \<in> set other_inputs. valid inp"
  shows "ToyDeepQEPHiddenLayer_call S rsample super_call (Other obj) other_inputs = Inl TypeError"
proof -
  have "sequence (map (process_input S) other_inputs) = Inr (map (expanded S) other_inputs)"
    using assms(2) by (intro sequence_map_Inr) (simp add: process_input_expanded)
  then show ?thesis using assms(1) by (simp add: ToyDeepQEPHiddenLayer_call_def)
qed

text \<open>
  The samples and the broadcast inputs must agree in every dimension but the last. A
  previous layer's output drawn with another number of samples than the setting's current
  value cannot be concatenated with the inputs.
\<close>

lemma call_rejects_sample_count_mismatch:
  assumes "other_inputs \<noteq> []" "shape xs = S' # bs @ [dx]" "S' \<noteq> S"
      and "\<forall>inp \<in> set other_inputs. valid inp \<and> shape inp \<noteq> [] \<and> butlast (shape inp) = bs"
  shows "ToyDeepQEPHiddenLayer_call S rsample super_call (Tens xs) other_inputs = Inl RuntimeError"
proof -
  let ?processed = "map (expanded S) other_inputs"
  have seq: "sequence (map (process_input S) other_inputs) = Inr ?processed"
    using assms(4) by (intro sequence_map_Inr) (simp add: process_input_expanded)
  obtain inp where inp: "inp \<in> set other_inputs" using assms(1) by (cases other_inputs) auto
  then have sh: "shape inp \<noteq> []" "butlast (shape inp) = bs" using assms(4) by auto
  let ?u = "expanded S inp"
  have u: "?u \<in> set ?processed" "shape ?u \<noteq> [0]" "butlast (shape ?u) \<noteq> butlast (shape xs)"
    using inp sh assms(2,3) by (auto simp: expanded_def)
  have filt: "filter (\<lambda>t. shape t \<noteq> [0]) (xs # ?processed)
                = xs # filter (\<lambda>t. shape t \<noteq> [0]) ?processed"
    using assms(2) by simp
  have ex: "list_ex (\<lambda>v. shape v = [] \<or> butlast (shape v) \<noteq> butlast (shape xs))
              (xs # filter (\<lambda>t. shape t \<noteq> [0]) ?processed)"
    unfolding list_ex_iff using u by (intro bexI [of _ ?u]) auto
  have "cat_last (xs # ?processed) = Inl RuntimeError"
    unfolding cat_last_def filt using ex by simp
  then show ?thesis using assms(1) by (simp add: ToyDeepQEPHiddenLayer_call_def seq)
qed

text \<open>
  Claim C8. When the hidden layer is called with additional inputs (skip connections),
  each additional input is broadcast across the Monte Carlo sample dimension, whose size
  \<open>S\<close> is \<^verbatim>\<open>num_likelihood_samples\<close>, and concatenated with the previous layer's
  sampled output along the last (feature) dimension; the result goes to the next layer as a
  batch of \<open>S\<close> samples (\<^verbatim>\<open>are_samples=True\<close>).

  Here \<open>xs\<close> is the previous layer's output, either given as a tensor or drawn from
  the multitask distribution, of shape \<open>S \<times> bs \<times> dx\<close>; every additional input has shape
  \<open>bs \<times> d\<close> for a feature size \<open>d\<close> of its own. The tensor passed on has shape
  \<open>S \<times> bs \<times> (dx + \<Sum>d)\<close>, and its row for sample \<open>s\<close> and point \<open>r\<close> is the row of
  \<open>xs\<close> for that sample and point followed by the rows of the additional inputs for
  point \<open>r\<close>, the same for every sample.
\<close>

theorem skip_connection_concatenates_samples:
  assumes inputs: "other_inputs \<noteq> []"
      and x: "x = Tens xs \<or> (x = Multitask d \<and> rsample d = xs)"
      and xs: "valid xs" "shape xs = S # bs @ [dx]"
      and inps: "\<forall>inp \<in> set other_inputs. valid inp \<and> shape inp \<noteq> [] \<and> butlast (shape inp) = bs"
  shows "\<exists>c. ToyDeepQEPHiddenLayer_call S rsample super_call x other_inputs
                 = Inr (super_call (Tens c) True)
           \<and> shape c = S # bs @ [dx + sum_list (map (\<lambda>inp. last (shape inp)) other_inputs)]
           \<and> valid c
           \<and> (\<forall>s < S. \<forall>r < prod_list bs.
                 row_of c (s * prod_list bs + r)
                   = row_of xs (s * prod_list bs + r) @ concat (map (\<lambda>inp. row_of inp r) other_inputs))"
proof -
  let ?P = "prod_list bs"
  let ?processed = "map (expanded S) other_inputs"
  have seq: "sequence (map (process_input S) other_inputs) = Inr ?processed"
    using inps by (intro sequence_map_Inr) (simp add: process_input_expanded)
  have x1: "(case x of Multitask d \<Rightarrow> Tens (rsample d) | _ \<Rightarrow> x) = Tens xs"
    using x by auto
  have ok: "valid u \<and> shape u \<noteq> [] \<and> shape u \<noteq> [0] \<and> butlast (shape u) = S # bs"
    if mem: "u \<in> set (xs # ?processed)" for u
  proof (cases "u = xs")
    case True
    then show ?thesis using xs by simp
  next
    case False
    then obtain inp where inp: "inp \<in> set other_inputs" "u = expanded S inp"
      using mem by auto
    then have "valid inp" "shape inp \<noteq> []" "butlast (shape inp) = bs" using inps by auto
    then show ?thesis using inp(2) valid_expanded [of inp S] by (auto simp: expanded_def)
  qed
  obtain c where c: "cat_last (xs # ?processed) = Inr c"
      "shape c = (S # bs) @ [sum_list (map (\<lambda>u. last (shape u)) (xs # ?processed))]"
      "valid c"
      "\<forall>r < prod_list (S # bs). row_of c r = concat (map (\<lambda>u. row_of u r) (xs # ?processed))"
    using cat_last_rows [of "xs # ?processed" "S # bs"] ok by blast
  have call: "ToyDeepQEPHiddenLayer_call S rsample super_call x other_inputs
                = Inr (super_call (Tens c) True)"
    using inputs by (simp add: ToyDeepQEPHiddenLayer_call_def seq x1 c(1))
  have lasts: "map ((\<lambda>u. last (shape u)) \<circ> expanded S) other_inputs
                 = map (\<lambda>inp. last (shape inp)) other_inputs"
    using inps by (simp add: expanded_def)
  have shape_c: "shape c = S # bs @ [dx + sum_list (map (\<lambda>inp. last (shape inp)) other_inputs)]"
    using c(2) lasts xs(2) by simp
  have rows: "row_of c (s * ?P + r) = row_of xs (s * ?P + r) @ concat (map (\<lambda>inp. row_of inp r) other_inputs)"
    if "s < S" "r < ?P" for s r
  proof -
    have "s * ?P + r < prod_list (S # bs)" using sample_row_index [OF that] by simp
    then have "row_of c (s * ?P + r) = concat (map (\<lambda>u. row_of u (s * ?P + r)) (xs # ?processed))"
      using c(4) by blast
    moreover have "row_of (expanded S inp) (s * ?P + r) = row_of inp r"
      if "inp \<in> set other_inputs" for inp
    proof -
      have "valid inp" "shape inp \<noteq> []" "butlast (shape inp) = bs" using inps that by auto
      then show ?thesis using row_of_expanded [of inp s S r] \<open>s < S\<close> \<open>r < ?P\<close> by simp
    qed
    then have "map ((\<lambda>u. row_of u (s * ?P + r)) \<circ> expanded S) other_inputs
                 = map (\<lambda>inp. row_of inp r) other_inputs"
      by simp
    ultimately show ?thesis by simp
  qed
  show ?thesis using call shape_c c(3) rows by blast
qed

text \<open>
  An instance: two samples of a layer with one output at two points, and the two-feature
  model input as the skip connection.
\<close>

theorem skip_connection_concatenates_samples_witness:
  "[\<lparr>shape = [2, 2], data = [10, 11, 20, 21::nat]\<rparr>] \<noteq> []
   \<and> valid \<lparr>shape = [2, 2, 1], data = [1, 2, 3, 4::nat]\<rparr>
   \<and> valid \<lparr>shape = [2, 2], data = [10, 11, 20, 21::nat]\<rparr>
   \<and> (\<exists>c. ToyDeepQEPHiddenLayer_call 2 (\<lambda>d. d) (\<lambda>v b. (v, b))
              (Multitask \<lparr>shape = [2, 2, 1], data = [1, 2, 3, 4::nat]\<rparr> :: (nat, nat tensor, unit) layer_input)
              [\<lparr>shape = [2, 2], data = [10, 11, 20, 21]\<rparr>] = Inr (Tens c, True)
          \<and> shape c = [2, 2, 3]
          \<and> row_of c 3 = [4, 20, 21])"
proof -
  let ?x = "\<lparr>shape = [2, 2, 1], data = [1, 2, 3, 4::nat]\<rparr>"
  let ?inp = "\<lparr>shape = [2, 2], data = [10, 11, 20, 21::nat]\<rparr>"
  have v: "valid ?x" "valid ?inp" by (simp_all add: valid_def)
  have h2: "(Multitask ?x :: (nat, nat tensor, unit) layer_input) = Tens ?x \<or> (Multitask ?x = (Multitask ?x :: (nat, nat tensor, unit) layer_input) \<and> (\<lambda>d. d) ?x = ?x)"
    by simp
  have h4: "shape ?x = 2 # [2] @ [1]" by simp
  have h5: "\<forall>inp \<in> set [?inp]. valid inp \<and> shape inp \<noteq> [] \<and> butlast (shape inp) = [2]"
    using v by simp
  obtain c where c: "ToyDeepQEPHiddenLayer_call 2 (\<lambda>d. d) (\<lambda>v b. (v, b)) (Multitask ?x :: (nat, nat tensor, unit) layer_input) [?inp] = Inr (Tens c, True)"
      "shape c = 2 # [2] @ [1 + sum_list (map (\<lambda>inp. last (shape inp)) [?inp])]"
      "\<forall>s < 2. \<forall>r < prod_list [2]. row_of c (s * prod_list [2] + r) = row_of ?x (s * prod_list [2] + r) @ concat (map (\<lambda>inp. row_of inp r) [?inp])"
    using skip_connection_concatenates_samples
            [where other_inputs = "[?inp]" and x = "Multitask ?x" and xs = ?x and d = ?x
               and rsample = "\<lambda>d. d" and S = 2 and bs = "[2]" and dx = 1
               and super_call = "\<lambda>v b. (v, b)", OF _ h2 v(1) h4 h5]
    by auto
  have "row_of c (1 * prod_list [2] + 1) = row_of ?x (1 * prod_list [2] + 1) @ concat (map (\<lambda>inp. row_of inp 1) [?inp])"
    using c(3) [rule_format, of 1 1] by simp
  then have "row_of c 3 = [4, 20, 21]" by (simp add: row_of_def)
  then show ?thesis using v c(1) c(2) by auto
qed

section \<open>Loading requires the exact key set\<close>

lemma no_missing_iff: "filter (\<lambda>k. k \<notin> B) ks = [] \<longleftrightarrow> set ks \<subseteq> B"
  by (auto simp: filter_empty_conv)

lemma map_of_loaded:
  "k \<in> set (keys registry) \<Longrightarrow>
   map_of (map (\<lambda>(k, v). (k, f k v)) registry) k = (case map_of registry k of Some v \<Rightarrow> Some (f k v) | None \<Rightarrow> None)"
  by (induction registry) (auto simp: keys_def)

text \<open>
  Claim C7. Loading persisted model state succeeds only when the saved key set matches the
  target model's registry exactly; a partial or renamed key set fails loudly instead of
  skipping entries silently.

  When the two key sets are equal the load succeeds, keeps the registry's names and gives
  each of them its saved tensor. When they differ the load fails, and the failure names
  exactly the registered names that were not saved and the saved names that are not
  registered.
\<close>

theorem load_state_dict_exact_key_set:
  "(set (keys saved) = set (keys registry) \<longrightarrow>
      (\<exists>loaded. load_state_dict registry saved = Inr loaded
         \<and> keys loaded = keys registry
         \<and> (\<forall>k \<in> set (keys saved). map_of loaded k = map_of saved k)))
   \<and> (set (keys saved) \<noteq> set (keys registry) \<longrightarrow>
      (\<exists>missing unexpected. load_state_dict registry saved = Inl (KeyMismatch missing unexpected)
         \<and> set missing = set (keys registry) - set (keys saved)
         \<and> set unexpected = set (keys saved) - set (keys registry)
         \<and> (missing \<noteq> [] \<or> unexpected \<noteq> [])))"
proof (intro conjI impI)
  let ?missing = "filter (\<lambda>k. k \<notin> set (keys saved)) (keys registry)"
  let ?unexpected = "filter (\<lambda>k. k \<notin> set (keys registry)) (keys saved)"
  let ?loaded = "map (\<lambda>(k, v). (k, case map_of saved k of Some w \<Rightarrow> w | None \<Rightarrow> v)) registry"
  {
    assume eq: "set (keys saved) = set (keys registry)"
    then have none: "?missing = []" "?unexpected = []" by (simp_all add: no_missing_iff)
    then have ld: "load_state_dict registry saved = Inr ?loaded"
      by (simp add: load_state_dict_def)
    have ks: "keys ?loaded = keys registry"
      by (simp add: keys_def case_prod_beta comp_def)
    have vals: "map_of ?loaded k = map_of saved k" if "k \<in> set (keys saved)" for k
    proof -
      from that obtain w where w: "map_of saved k = Some w"
        by (metis keys_def map_of_eq_None_iff not_Some_eq set_map)
      from that eq have "k \<in> set (keys registry)" by simp
      then obtain v where v: "map_of registry k = Some v"
        by (metis keys_def map_of_eq_None_iff not_Some_eq set_map)
      show ?thesis
        using map_of_loaded [OF \<open>k \<in> set (keys registry)\<close>, of "\<lambda>k v. case map_of saved k of Some w \<Rightarrow> w | None \<Rightarrow> v"] w v
        by simp
    qed
    show "\<exists>loaded. load_state_dict registry saved = Inr loaded
         \<and> keys loaded = keys registry
         \<and> (\<forall>k \<in> set (keys saved). map_of loaded k = map_of saved k)"
      using ld ks vals by blast
  }
  {
    assume ne: "set (keys saved) \<noteq> set (keys registry)"
    then have some: "?missing \<noteq> [] \<or> ?unexpected \<noteq> []"
      by (auto simp: no_missing_iff)
    then have ld: "load_state_dict registry saved = Inl (KeyMismatch ?missing ?unexpected)"
      by (auto simp: load_state_dict_def)
    show "\<exists>missing unexpected. load_state_dict registry saved = Inl (KeyMismatch missing unexpected)
         \<and> set missing = set (keys registry) - set (keys saved)
         \<and> set unexpected = set (keys saved) - set (keys registry)
         \<and> (missing \<noteq> [] \<or> unexpected \<noteq> [])"
      using ld some by (intro exI [of _ ?missing] exI [of _ ?unexpected]) auto
  }
qed

text \<open>
  Two instances with the notebook's parameter names: a saved mapping in which
  \<^verbatim>\<open>raw_outputscale\<close> was renamed, and one with the registry's names in another order.
\<close>

theorem load_state_dict_exact_key_set_witness:
  "set (keys [(''raw_noise'', 5::int), (''raw_scale'', 7)])
     \<noteq> set (keys [(''raw_noise'', 0::int), (''raw_outputscale'', 0)])
   \<and> load_state_dict [(''raw_noise'', 0::int), (''raw_outputscale'', 0)]
                     [(''raw_noise'', 5), (''raw_scale'', 7)]
       = Inl (KeyMismatch [''raw_outputscale''] [''raw_scale''])
   \<and> set (keys [(''raw_outputscale'', 7::int), (''raw_noise'', 5)])
     = set (keys [(''raw_noise'', 0::int), (''raw_outputscale'', 0)])
   \<and> (\<exists>loaded. load_state_dict [(''raw_noise'', 0::int), (''raw_outputscale'', 0)]
                               [(''raw_outputscale'', 7), (''raw_noise'', 5)] = Inr loaded
          \<and> keys loaded = keys [(''raw_noise'', 0::int), (''raw_outputscale'', 0)]
          \<and> map_of loaded ''raw_noise'' = Some 5)"
proof -
  let ?registry = "[(''raw_noise'', 0::int), (''raw_outputscale'', 0)]"
  let ?renamed = "[(''raw_noise'', 5::int), (''raw_scale'', 7)]"
  let ?permuted = "[(''raw_outputscale'', 7::int), (''raw_noise'', 5)]"
  have ne: "set (keys ?renamed) \<noteq> set (keys ?registry)"
    by code_simp
  have eq: "set (keys ?permuted) = set (keys ?registry)"
    by code_simp
  have "\<exists>missing unexpected.
          load_state_dict ?registry ?renamed = Inl (KeyMismatch missing unexpected)
          \<and> set missing = set (keys ?registry) - set (keys ?renamed)
          \<and> set unexpected = set (keys ?renamed) - set (keys ?registry)
          \<and> (missing \<noteq> [] \<or> unexpected \<noteq> [])"
    by (rule load_state_dict_exact_key_set [of ?renamed ?registry, THEN conjunct2, THEN mp, OF ne])
  moreover have "load_state_dict ?registry ?renamed = Inl (KeyMismatch missing unexpected)
                 \<Longrightarrow> missing = [''raw_outputscale''] \<and> unexpected = [''raw_scale'']"
    for missing unexpected
    by (simp add: load_state_dict_def keys_def)
  ultimately have fail: "load_state_dict ?registry ?renamed
                           = Inl (KeyMismatch [''raw_outputscale''] [''raw_scale''])"
    by (elim exE conjE) simp
  have "\<exists>loaded. load_state_dict ?registry ?permuted = Inr loaded
          \<and> keys loaded = keys ?registry
          \<and> (\<forall>k \<in> set (keys ?permuted). map_of loaded k = map_of ?permuted k)"
    by (rule load_state_dict_exact_key_set [of ?permuted ?registry, THEN conjunct1, THEN mp, OF eq])
  then obtain loaded where ok: "load_state_dict ?registry ?permuted = Inr loaded"
      "keys loaded = keys ?registry"
      "\<forall>k \<in> set (keys ?permuted). map_of loaded k = map_of ?permuted k"
    by (elim exE conjE)
  have mem: "''raw_noise'' \<in> set (keys ?permuted)" by code_simp
  have val: "map_of ?permuted ''raw_noise'' = Some 5" by code_simp
  have "map_of loaded ''raw_noise'' = Some 5"
    using bspec [OF ok(3) mem] val by (rule trans)
  then show ?thesis
    using ne fail eq ok(1) ok(2) by (intro conjI exI [of _ loaded])
qed

end
